theory Spec2Isabelle
  imports Main "HOL-Library.Sublist" "HOL-Library.Multiset"
begin

section \<open>Strings\<close>

text \<open>
  The component is \<^verbatim>\<open>FileBrowser\<close> (TypeScript/React). Its strings are
  modelled as \<^typ>\<open>string\<close>: one \<^typ>\<open>char\<close> per character, which is exact for
  names, paths and queries whose characters are single code units; the case mapping
  and the white space of \<^verbatim>\<open>trim\<close> are the ASCII ones. Numbers are \<^typ>\<open>int\<close>
  (all values that occur are small integers, represented exactly by the source's
  floating-point numbers).
\<close>

definition toLowerChar :: "char \<Rightarrow> char" where
  "toLowerChar c =
     (let n = (of_char c :: nat) in if 65 \<le> n \<and> n \<le> 90 then char_of (n + 32) else c)"

definition toLowerCase :: "string \<Rightarrow> string" where
  "toLowerCase s = map toLowerChar s"

text \<open>\<^verbatim>\<open>s.startsWith(t)\<close> and \<^verbatim>\<open>s.includes(t)\<close> (named \<open>includesStr\<close> here).\<close>

fun startsWith :: "string \<Rightarrow> string \<Rightarrow> bool" where
  "startsWith s [] = True"
| "startsWith [] (c # t) = False"
| "startsWith (x # s) (c # t) = (x = c \<and> startsWith s t)"

fun includesStr :: "string \<Rightarrow> string \<Rightarrow> bool" where
  "includesStr [] t = (t = [])"
| "includesStr (x # s) t = (startsWith (x # s) t \<or> includesStr s t)"

text \<open>\<^verbatim>\<open>s.endsWith('/')\<close>, the only use of \<^verbatim>\<open>endsWith\<close> in the component.\<close>

definition endsWithSlash :: "string \<Rightarrow> bool" where
  "endsWithSlash s = (case rev s of [] \<Rightarrow> False | c # _ \<Rightarrow> c = CHR ''/'')"

text \<open>\<^verbatim>\<open>s.trim()\<close>: white space removed at both ends.\<close>

definition isSpace :: "char \<Rightarrow> bool" where
  "isSpace c = (let n = (of_char c :: nat) in (9 \<le> n \<and> n \<le> 13) \<or> n = 32)"

definition trim :: "string \<Rightarrow> string" where
  "trim s = rev (dropWhile isSpace (rev (dropWhile isSpace s)))"

section \<open>Data model\<close>

text \<open>
  \<^verbatim>\<open>interface FileItem { name: string; type: 'file' | 'folder'; path?: string;
  size?: number; modified?: string }\<close>
\<close>

datatype ftype = File | Folder

record FileItem =
  name :: string
  type :: ftype
  path :: "string option"
  fsize :: "int option"
  modified :: "string option"

section \<open>Fuzzy match\<close>

text \<open>
  The loop \<^verbatim>\<open>for(const c of name){ if(c===term[i]){s+=15;i++} if(i===term.length)break }\<close>
  over the remaining characters of the name, with the loop state \<open>(s, i)\<close>. Reading
  \<^verbatim>\<open>term[i]\<close> beyond the end gives \<^verbatim>\<open>undefined\<close>, which equals no character.
\<close>

fun walk :: "string \<Rightarrow> string \<Rightarrow> int \<times> nat \<Rightarrow> int \<times> nat" where
  "walk trm [] (s, i) = (s, i)"
| "walk trm (c # cs) (s, i) =
     (let (s', i') = (if i < length trm \<and> c = trm ! i then (s + 15, i + 1) else (s, i))
      in if i' = length trm then (s', i') else walk trm cs (s', i'))"

text \<open>
  The body of the callback of \<^verbatim>\<open>items.map\<close> in \<^verbatim>\<open>fuzzySearch\<close>, up to the
  value of \<^verbatim>\<open>s\<close>; \<open>trm\<close> is \<^verbatim>\<open>q.toLowerCase()\<close>.
\<close>

definition scoreItem :: "string \<Rightarrow> FileItem \<Rightarrow> int" where
  "scoreItem trm f =
     (let nm = toLowerCase (name f);
          pth = toLowerCase (case path f of None \<Rightarrow> [] | Some p \<Rightarrow> p);
          s0 = (0::int);
          s1 = (if nm = trm then s0 + 900 else s0);
          s2 = (if startsWith nm trm then s1 + 500 else s1);
          s3 = (if includesStr nm trm then s2 + 250 else s2);
          s4 = (if includesStr pth trm then s3 + 120 else s3)
      in fst (walk trm nm (s4, 0)))"

text \<open>\<^verbatim>\<open>.filter(Boolean)\<close> on a list of results that are a pair or \<^verbatim>\<open>null\<close>.\<close>

fun filterBoolean :: "'a option list \<Rightarrow> 'a list" where
  "filterBoolean [] = []"
| "filterBoolean (None # rs) = filterBoolean rs"
| "filterBoolean (Some r # rs) = r # filterBoolean rs"

text \<open>
  \<^verbatim>\<open>.sort((a,b)=>b.s-a.s)\<close>: the comparator is a total preorder on the scores and
  \<^verbatim>\<open>Array.prototype.sort\<close> is stable, so the result is the stable sort by descending
  score, which \<^const>\<open>sort_key\<close> with the negated score computes.
\<close>

definition fuzzySearch :: "string \<Rightarrow> FileItem list \<Rightarrow> FileItem list" where
  "fuzzySearch q items =
     (let trm = toLowerCase q;
          scored = map (\<lambda>f. let s = scoreItem trm f in if 0 < s then Some (f, s) else None) items;
          kept = filterBoolean scored;
          sorted_rs = sort_key (\<lambda>r. - snd r) kept
      in map fst (take 50 sorted_rs))"

section \<open>Directory index\<close>

text \<open>
  The listing capability \<^verbatim>\<open>onListFiles(path)\<close> is a parameter: \<open>None\<close> is a
  rejected promise (a listing failure), \<open>Some list\<close> the entries it resolves to.
\<close>

type_synonym lister = "string \<Rightarrow> FileItem list option"

text \<open>
  \<^verbatim>\<open>f.path || (path.endsWith('/') ? `${path}${f.name}` : `${path}/${f.name}`)\<close>:
  an absent and an empty \<^verbatim>\<open>f.path\<close> are both falsy.
\<close>

definition filePath :: "string \<Rightarrow> FileItem \<Rightarrow> string" where
  "filePath pth f =
     (let synth = (if endsWithSlash pth then pth @ name f else pth @ ''/'' @ name f)
      in case path f of None \<Rightarrow> synth | Some p \<Rightarrow> if p = [] then synth else p)"

text \<open>
  What one indexing pass does besides returning entries, as a trace: \<open>Listing p d\<close> is
  a call \<^verbatim>\<open>onListFiles(p)\<close> made by \<^verbatim>\<open>crawl(p, d)\<close>, and \<open>Descend f p d\<close> is the
  recursive call \<^verbatim>\<open>crawl(p, d)\<close> made for the folder entry \<open>f\<close>.
\<close>

datatype event = Listing string nat | Descend FileItem string nat

text \<open>
  \<^verbatim>\<open>crawl\<close>, the recursive function inside \<^verbatim>\<open>indexAllFiles\<close>, and its
  \<^verbatim>\<open>for(const f of list)\<close> loop, whose state is \<^verbatim>\<open>collected\<close> (and the trace).
  The \<^verbatim>\<open>catch\<close> returns \<^verbatim>\<open>[]\<close> when the listing call fails; nothing else in
  the \<^verbatim>\<open>try\<close> block throws, a recursive call having caught its own failures.
\<close>

function crawl :: "lister \<Rightarrow> string \<Rightarrow> nat \<Rightarrow> FileItem list \<times> event list"
  and crawl_loop :: "lister \<Rightarrow> string \<Rightarrow> nat \<Rightarrow> FileItem list
      \<Rightarrow> FileItem list \<times> event list \<Rightarrow> FileItem list \<times> event list"
where
  "crawl onListFiles pth depth =
     (if depth > 6 then ([], [])
      else case onListFiles pth of
             None \<Rightarrow> ([], [Listing pth depth])
           | Some list \<Rightarrow> crawl_loop onListFiles pth depth list ([], [Listing pth depth]))"
| "crawl_loop onListFiles pth depth [] (collected, tr) = (collected, tr)"
| "crawl_loop onListFiles pth depth (f # fs) (collected, tr) =
     (let fp = filePath pth f in
      if type f = File
      then crawl_loop onListFiles pth depth fs (collected @ [f\<lparr>path := Some fp\<rparr>], tr)
      else if type f = Folder \<and> \<not> startsWith (name f) ''.'' \<and> name f \<noteq> ''node_modules''
              \<and> name f \<noteq> ''build'' \<and> name f \<noteq> ''dist''
      then (case crawl onListFiles fp (depth + 1) of
              (subFiles, tr') \<Rightarrow>
                crawl_loop onListFiles pth depth fs
                  (collected @ subFiles, tr @ Descend f fp (depth + 1) # tr'))
      else crawl_loop onListFiles pth depth fs (collected, tr))"
  by pat_completeness auto
termination
  by (relation "measures
        [\<lambda>x. case x of Inl (_, _, d) \<Rightarrow> 2 * (8 - d) | Inr (_, _, d, _, _) \<Rightarrow> 2 * (8 - Suc d) + 1,
         \<lambda>x. case x of Inl _ \<Rightarrow> 0 | Inr (_, _, _, l, _) \<Rightarrow> length l]") auto

declare crawl.simps [simp del]

text \<open>The paths of the listing calls of a trace.\<close>

fun listed :: "event list \<Rightarrow> string list" where
  "listed [] = []"
| "listed (Listing p d # es) = p # listed es"
| "listed (Descend f p d # es) = listed es"

section \<open>Component state\<close>

text \<open>
  The state hooks and refs of \<^verbatim>\<open>FileBrowser\<close>. \<open>cache\<close> is the
  \<^verbatim>\<open>Map<string, FileItem[]>\<close>; \<open>listCalls\<close> is not in the source: it logs the
  path of every call of \<^verbatim>\<open>onListFiles\<close>, in order.
\<close>

record state =
  query :: string
  selectedIndex :: int
  currentPath :: string
  files :: "FileItem list"
  allFiles :: "FileItem list"
  isLoading :: bool
  isIndexing :: bool
  indexedRef :: string
  lastProjectRef :: string
  cache :: "string \<rightharpoonup> FileItem list"
  listCalls :: "string list"

definition initialState :: state where
  "initialState =
     \<lparr>query = [], selectedIndex = 0, currentPath = [], files = [], allFiles = [],
      isLoading = False, isIndexing = False, indexedRef = [], lastProjectRef = [],
      cache = Map.empty, listCalls = []\<rparr>"

definition loadFiles :: "lister \<Rightarrow> string \<Rightarrow> state \<Rightarrow> state" where
  "loadFiles onListFiles pth st =
     (let st1 = st\<lparr>isLoading := True\<rparr>;
          st2 = (case cache st1 pth of
                   Some cached \<Rightarrow> st1\<lparr>files := cached\<rparr>
                 | None \<Rightarrow>
                     (case onListFiles pth of
                        Some list \<Rightarrow>
                          st1\<lparr>listCalls := listCalls st1 @ [pth],
                              cache := (cache st1)(pth \<mapsto> list), files := list\<rparr>
                      | None \<Rightarrow> st1\<lparr>listCalls := listCalls st1 @ [pth], files := []\<rparr>))
      in st2\<lparr>isLoading := False\<rparr>)"

definition navigateTo :: "lister \<Rightarrow> string \<Rightarrow> state \<Rightarrow> state" where
  "navigateTo onListFiles pth st =
     (let st1 = st\<lparr>currentPath := pth\<rparr>;
          st2 = loadFiles onListFiles pth st1
      in st2\<lparr>selectedIndex := 0, query := []\<rparr>)"


text \<open>The memoised \<^verbatim>\<open>filteredFiles\<close>: the collection the overlay displays.\<close>

definition filteredFiles :: "state \<Rightarrow> FileItem list" where
  "filteredFiles st =
     (if trim (query st) = [] then take 200 (files st)
      else if length (allFiles st) \<noteq> 0 then fuzzySearch (query st) (allFiles st)
      else filter (\<lambda>f. includesStr (toLowerCase (name f)) (toLowerCase (query st))) (files st))"

text \<open>The handler of the search input, \<^verbatim>\<open>onChange={e=>setQuery(e.target.value)}\<close>.\<close>

definition setQuery :: "string \<Rightarrow> state \<Rightarrow> state" where
  "setQuery q st = st\<lparr>query := q\<rparr>"

text \<open>
  The two arrow-key branches of \<^verbatim>\<open>handleKey\<close>, which are the ones that move the
  selection cursor (\<^verbatim>\<open>scrollToItem\<close> only scrolls the view).
\<close>

datatype key = ArrowDown | ArrowUp

definition handleKey :: "key \<Rightarrow> state \<Rightarrow> state" where
  "handleKey k st =
     (case k of
        ArrowDown \<Rightarrow>
          (let newIndex = min (selectedIndex st + 1) (int (length (filteredFiles st)) - 1)
           in st\<lparr>selectedIndex := newIndex\<rparr>)
      | ArrowUp \<Rightarrow>
          (let newIndex = max (selectedIndex st - 1) 0
           in st\<lparr>selectedIndex := newIndex\<rparr>))"

section \<open>The scoring function as the specification words it\<close>

text \<open>
  The sequential character bonus: walk the name left to right; a character equal to the
  next unconsumed query character earns 15 and consumes it; nothing more is awarded once
  the query is consumed. The second argument is the unconsumed rest of the query.
\<close>

fun seq_bonus :: "string \<Rightarrow> string \<Rightarrow> int" where
  "seq_bonus [] q = 0"
| "seq_bonus (c # cs) [] = 0"
| "seq_bonus (c # cs) (x # xs) = (if c = x then 15 + seq_bonus cs xs else seq_bonus cs (x # xs))"

text \<open>
  The specified score of a candidate with name \<open>N\<close> and optional path \<open>P\<close> for the query
  \<open>Q\<close>, with "starts with" and "contains as a substring" read as the library's
  \<^const>\<open>prefix\<close> and \<^const>\<open>sublist\<close>. An absent path is lowercased as the empty string.
\<close>

definition spec_score :: "string \<Rightarrow> string \<Rightarrow> string option \<Rightarrow> int" where
  "spec_score Q N P =
     (let n = toLowerCase N; p = toLowerCase (case P of None \<Rightarrow> [] | Some x \<Rightarrow> x);
          q = toLowerCase Q
      in (if n = q then 900 else 0) + (if prefix q n then 500 else 0)
         + (if sublist q n then 250 else 0) + (if sublist q p then 120 else 0)
         + seq_bonus n q)"

section \<open>Vocabulary of the properties\<close>

text \<open>The names the traversal does not enter: dot-names and the three reserved names.\<close>

definition ignoredName :: "string \<Rightarrow> bool" where
  "ignoredName n = (startsWith n ''.'' \<or> n = ''node_modules'' \<or> n = ''build'' \<or> n = ''dist'')"

text \<open>
  What the traversal policy allows of a trace event: a listing call at most 6 levels
  below the root, a descent only into a folder entry whose name is not ignored.
\<close>

definition permitted :: "event \<Rightarrow> bool" where
  "permitted e = (case e of Listing p d \<Rightarrow> d \<le> 6
                  | Descend f p d \<Rightarrow> type f = Folder \<and> \<not> ignoredName (name f))"

text \<open>
  \<open>reaches ls root p d\<close>: the path \<open>p\<close> lies \<open>d\<close> levels below \<open>root\<close>, at the
  end of a chain of \<open>d\<close> folder entries, each found in the listing of the one before
  and none with an ignored name.
\<close>

inductive reaches :: "lister \<Rightarrow> string \<Rightarrow> string \<Rightarrow> nat \<Rightarrow> bool" for ls root where
  reaches_root: "reaches ls root root 0"
| reaches_step:
    "reaches ls root p d \<Longrightarrow> ls p = Some list \<Longrightarrow> f \<in> set list \<Longrightarrow> type f = Folder \<Longrightarrow>
     \<not> ignoredName (name f) \<Longrightarrow> reaches ls root (filePath p f) (Suc d)"

text \<open>
  What one entry \<open>f\<close> of the listing of \<open>pth\<close> adds to the index: a file adds itself
  with its resolved path, a folder that is entered adds what its own traversal returns.
\<close>

definition contribution :: "lister \<Rightarrow> string \<Rightarrow> nat \<Rightarrow> FileItem \<Rightarrow> FileItem list" where
  "contribution ls pth depth f =
     (if type f = File then [f\<lparr>path := Some (filePath pth f)\<rparr>]
      else if ignoredName (name f) then []
      else fst (crawl ls (filePath pth f) (depth + 1)))"

text \<open>The selection cursor points at an entry of the displayed collection.\<close>

definition cursorInRange :: "state \<Rightarrow> bool" where
  "cursorInRange st =
     (0 \<le> selectedIndex st \<and> selectedIndex st \<le> int (length (filteredFiles st)) - 1)"

section \<open>Example inputs\<close>

text \<open>
  An entry as the backend's \<^verbatim>\<open>ListFiles\<close> reports it through \<^verbatim>\<open>onListFiles\<close>: the
  path is always present (size and modification time play no role here).
\<close>

definition entry :: "string \<Rightarrow> ftype \<Rightarrow> string \<Rightarrow> FileItem" where
  "entry n t p = \<lparr>name = n, type = t, path = Some p, fsize = Some 0, modified = Some []\<rparr>"

text \<open>
  The project \<^verbatim>\<open>/proj\<close> with the files \<^verbatim>\<open>Readme.md\<close>, \<^verbatim>\<open>readme-old.md\<close> and the
  folder \<^verbatim>\<open>src\<close> holding \<^verbatim>\<open>main.go\<close>. The entries of a directory come in the order
  of the backend, which lists a directory sorted by file name (\<^verbatim>\<open>ioutil.ReadDir\<close>).
\<close>

definition proj_ls :: lister where
  "proj_ls p =
     (if p = ''/proj''
      then Some [entry ''Readme.md'' File ''/proj/Readme.md'',
                 entry ''readme-old.md'' File ''/proj/readme-old.md'',
                 entry ''src'' Folder ''/proj/src'']
      else if p = ''/proj/src'' then Some [entry ''main.go'' File ''/proj/src/main.go'']
      else None)"

text \<open>The project \<^verbatim>\<open>/proj\<close> with \<^verbatim>\<open>docs\<close>, \<^verbatim>\<open>src\<close> and an unreadable \<^verbatim>\<open>locked\<close>.\<close>

definition locked_ls :: lister where
  "locked_ls p =
     (if p = ''/proj''
      then Some [entry ''docs'' Folder ''/proj/docs'',
                 entry ''locked'' Folder ''/proj/locked'',
                 entry ''src'' Folder ''/proj/src'']
      else if p = ''/proj/docs'' then Some [entry ''guide.md'' File ''/proj/docs/guide.md'']
      else if p = ''/proj/src'' then Some [entry ''main.go'' File ''/proj/src/main.go'']
      else None)"

text \<open>
  A tree that never ends: every directory holds a folder \<^verbatim>\<open>a\<close> (as a cycle of links
  does) beside a \<^verbatim>\<open>node_modules\<close> and a \<^verbatim>\<open>.git\<close>; the entries carry no path.
\<close>

definition cyclic_ls :: lister where
  "cyclic_ls p =
     Some [\<lparr>name = ''a'', type = Folder, path = None, fsize = None, modified = None\<rparr>,
           \<lparr>name = ''node_modules'', type = Folder, path = None, fsize = None, modified = None\<rparr>,
           \<lparr>name = ''.git'', type = Folder, path = None, fsize = None, modified = None\<rparr>]"


text \<open>
  The overlay after the navigation to \<^verbatim>\<open>/proj\<close> (no index yet), two presses of
  Arrow-down and the typing of \<^verbatim>\<open>src\<close>: one entry is displayed and the cursor is
  still 2.
\<close>

definition staleState :: state where
  "staleState =
     setQuery ''src''
       (handleKey ArrowDown (handleKey ArrowDown (navigateTo proj_ls ''/proj'' initialState)))"

text \<open>An overlay without an index whose directory holds 51 folders named \<^verbatim>\<open>src\<close>.\<close>

definition manyState :: state where
  "manyState =
     initialState\<lparr>query := ''S'', files := replicate 51 (entry ''src'' Folder ''/proj/src'')\<rparr>"

section \<open>Properties of the string functions\<close>

lemma startsWith_prefix: "startsWith s t = prefix t s"
  by (induction s t rule: startsWith.induct) auto

lemma includesStr_sublist: "includesStr s t = sublist t s"
proof (induction s)
  case Nil
  show ?case by auto
next
  case (Cons x s)
  show ?case
  proof (cases t)
    case Nil
    then show ?thesis by simp
  next
    case (Cons c t')
    with Cons.IH show ?thesis
      by (simp add: sublist_Cons_right startsWith_prefix del: startsWith.simps)
  qed
qed

section \<open>The score\<close>

lemma seq_bonus_Nil [simp]: "seq_bonus cs [] = 0"
  by (cases cs) simp_all

lemma walk_seq_bonus: "fst (walk trm cs (s, i)) = s + seq_bonus cs (drop i trm)"
proof (induction cs arbitrary: s i)
  case Nil
  show ?case by simp
next
  case (Cons c cs)
  show ?case
  proof (cases "i < length trm")
    case False
    then show ?thesis using Cons.IH [of s i] by simp
  next
    case True
    then have d: "drop i trm = trm ! i # drop (Suc i) trm"
      by (simp add: Cons_nth_drop_Suc)
    show ?thesis
    proof (cases "c = trm ! i")
      case True
      with \<open>i < length trm\<close> d Cons.IH [of "s + 15" "Suc i"] show ?thesis
        by (cases cs) auto
    next
      case False
      with \<open>i < length trm\<close> d Cons.IH [of s i] show ?thesis by auto
    qed
  qed
qed



section \<open>The ranking\<close>

lemma scoreItem_sum:
  "scoreItem trm f =
     (if toLowerCase (name f) = trm then 900 else 0)
     + (if prefix trm (toLowerCase (name f)) then 500 else 0)
     + (if sublist trm (toLowerCase (name f)) then 250 else 0)
     + (if sublist trm (toLowerCase (case path f of None \<Rightarrow> [] | Some p \<Rightarrow> p)) then 120 else 0)
     + seq_bonus (toLowerCase (name f)) trm"
  by (simp add: scoreItem_def Let_def walk_seq_bonus startsWith_prefix includesStr_sublist)

lemma seq_bonus_nonneg: "0 \<le> seq_bonus cs q"
  by (induction cs q rule: seq_bonus.induct) simp_all

lemma seq_bonus_le: "seq_bonus cs q \<le> 15 * int (length q)"
  by (induction cs q rule: seq_bonus.induct) simp_all

lemma seq_bonus_same: "seq_bonus q q = 15 * int (length q)"
  by (induction q) simp_all

lemma scoreItem_nonneg: "0 \<le> scoreItem trm f"
  using seq_bonus_nonneg [of "toLowerCase (name f)" trm] by (simp add: scoreItem_sum)

lemma scoreItem_exact:
  "toLowerCase (name f) = trm \<Longrightarrow> 1650 + 15 * int (length trm) \<le> scoreItem trm f"
  by (simp add: scoreItem_sum seq_bonus_same)

lemma scoreItem_non_exact:
  "toLowerCase (name f) \<noteq> trm \<Longrightarrow> scoreItem trm f \<le> 870 + 15 * int (length trm)"
  using seq_bonus_le [of "toLowerCase (name f)" trm] by (simp add: scoreItem_sum)

text \<open>
  The result of a stable sort does not depend on the algorithm: a sorted rearrangement
  that keeps the order of the elements with equal keys is the one \<^const>\<open>sort_key\<close>
  computes.
\<close>

lemma stable_sort_unique:
  assumes "mset ys = mset xs" and "sorted (map k ys)"
    and "\<And>v. filter (\<lambda>x. k x = v) ys = filter (\<lambda>x. k x = v) xs"
  shows "ys = sort_key k xs"
proof -
  have "filter (\<lambda>x. k y = k x) ys = filter (\<lambda>x. k y = k x) xs" for y
    using assms(3) [of "k y"] by (simp add: eq_commute)
  with assms(1,2) show ?thesis by (intro properties_for_sort_key [symmetric]) auto
qed

lemma filterBoolean_scored:
  "filterBoolean (map (\<lambda>f. if (0::int) < k f then Some (f, k f) else None) items)
     = map (\<lambda>f. (f, k f)) (filter (\<lambda>f. 0 < k f) items)"
  by (induction items) simp_all

lemma insort_key_pair:
  "insort_key (\<lambda>r. - snd r) (x, k x) (map (\<lambda>f. (f, k f)) ys)
     = map (\<lambda>f. (f, (k f :: int))) (insort_key (\<lambda>f. - k f) x ys)"
  by (induction ys) simp_all

lemma sort_key_pair:
  "sort_key (\<lambda>r. - snd r) (map (\<lambda>f. (f, k f)) xs)
     = map (\<lambda>f. (f, (k f :: int))) (sort_key (\<lambda>f. - k f) xs)"
  by (induction xs) (simp_all add: insort_key_pair)

lemma fuzzySearch_eq:
  "fuzzySearch q items =
     take 50 (sort_key (\<lambda>f. - scoreItem (toLowerCase q) f)
       (filter (\<lambda>f. 0 < scoreItem (toLowerCase q) f) items))"
  by (simp add: fuzzySearch_def Let_def filterBoolean_scored sort_key_pair take_map comp_def)

text \<open>
  C3. Every entry that \<open>fuzzySearch\<close> returns has a strictly positive score for the
  query, as computed and as specified; a candidate that scores 0 never appears in the
  output.
\<close>

theorem fuzzySearch_positive:
  "\<forall>f \<in> set (fuzzySearch q items).
     0 < scoreItem (toLowerCase q) f \<and> 0 < spec_score q (name f) (path f)"
proof
  fix f assume "f \<in> set (fuzzySearch q items)"
  then have "f \<in> set (sort_key (\<lambda>f. - scoreItem (toLowerCase q) f)
       (filter (\<lambda>f. 0 < scoreItem (toLowerCase q) f) items))"
    unfolding fuzzySearch_eq by (rule in_set_takeD)
  then have "0 < scoreItem (toLowerCase q) f" by simp
  moreover have "spec_score q (name f) (path f) = scoreItem (toLowerCase q) f"
    by (simp add: scoreItem_sum spec_score_def Let_def)
  ultimately show "0 < scoreItem (toLowerCase q) f \<and> 0 < spec_score q (name f) (path f)"
    by simp
qed

theorem fuzzySearch_positive_witness:
  "entry ''readme-old.md'' File ''/proj/readme-old.md''
     \<in> set (fuzzySearch ''README'' (fst (crawl proj_ls ''/proj'' 0)))
   \<and> 0 < scoreItem (toLowerCase ''README'') (entry ''readme-old.md'' File ''/proj/readme-old.md'')"
proof -
  have m: "entry ''readme-old.md'' File ''/proj/readme-old.md''
     \<in> set (fuzzySearch ''README'' (fst (crawl proj_ls ''/proj'' 0)))"
    by code_simp
  with fuzzySearch_positive [of "''README''" "fst (crawl proj_ls ''/proj'' 0)"]
  show ?thesis by blast
qed

text \<open>
  C4. The sort is stable: for every score \<open>v\<close>, the returned entries that score \<open>v\<close>
  are, in the same order, an initial part of the input entries that score \<open>v\<close> (all
  of them unless the cut to 50 entries falls among them). So two candidates with the same
  score keep in the output the relative order they had in the input.
\<close>

theorem fuzzySearch_stable:
  "prefix (filter (\<lambda>f. scoreItem (toLowerCase q) f = v) (fuzzySearch q items))
          (filter (\<lambda>f. scoreItem (toLowerCase q) f = v) items)"
proof -
  let ?k = "\<lambda>f. - scoreItem (toLowerCase q) f"
  let ?S = "sort_key ?k (filter (\<lambda>f. 0 < scoreItem (toLowerCase q) f) items)"
  let ?P = "\<lambda>f. scoreItem (toLowerCase q) f = v"
  have P: "?P = (\<lambda>f. ?k f = - v)" by auto
  have "filter ?P ?S = filter ?P (filter (\<lambda>f. 0 < scoreItem (toLowerCase q) f) items)"
    unfolding P by (rule sort_key_stable)
  also have "\<dots> = (if 0 < v then filter ?P items else [])"
    by (induction items) auto
  finally have S: "filter ?P ?S = (if 0 < v then filter ?P items else [])" .
  have "filter ?P ?S = filter ?P (take 50 ?S) @ filter ?P (drop 50 ?S)"
    by (metis append_take_drop_id filter_append)
  then have pre: "prefix (filter ?P (fuzzySearch q items)) (filter ?P ?S)"
    unfolding fuzzySearch_eq by (metis prefixI)
  show ?thesis
  proof (cases "0 < v")
    case True
    with S pre show ?thesis by simp
  next
    case False
    with S pre show ?thesis by simp
  qed
qed

theorem fuzzySearch_stable_witness:
  "prefix (filter (\<lambda>f. scoreItem (toLowerCase ''readme'') f = 960)
             (fuzzySearch ''readme'' (fst (crawl proj_ls ''/proj'' 0))))
          (filter (\<lambda>f. scoreItem (toLowerCase ''readme'') f = 960) (fst (crawl proj_ls ''/proj'' 0)))
   \<and> filter (\<lambda>f. scoreItem (toLowerCase ''readme'') f = 960) (fst (crawl proj_ls ''/proj'' 0))
       = [entry ''Readme.md'' File ''/proj/Readme.md'', entry ''readme-old.md'' File ''/proj/readme-old.md'']"
proof -
  have "filter (\<lambda>f. scoreItem (toLowerCase ''readme'') f = 960) (fst (crawl proj_ls ''/proj'' 0))
       = [entry ''Readme.md'' File ''/proj/Readme.md'', entry ''readme-old.md'' File ''/proj/readme-old.md'']"
    by code_simp
  with fuzzySearch_stable [of "''readme''" 960 "fst (crawl proj_ls ''/proj'' 0)"]
  show ?thesis by blast
qed

text \<open>
  C2. A candidate \<open>e\<close> whose lowercased name equals the lowercased query stands, in
  the output, strictly above every returned entry whose name does not: whenever such a
  non-exact entry is returned at position \<open>j\<close>, \<open>e\<close> is returned at a position
  before \<open>j\<close>.
\<close>

theorem fuzzySearch_exact_first:
  assumes e: "e \<in> set items" and ex: "toLowerCase (name e) = toLowerCase q"
    and j: "j < length (fuzzySearch q items)"
    and nex: "toLowerCase (name (fuzzySearch q items ! j)) \<noteq> toLowerCase q"
  shows "\<exists>i<j. fuzzySearch q items ! i = e"
proof -
  let ?t = "toLowerCase q"
  let ?k = "\<lambda>f. - scoreItem ?t f"
  let ?S = "sort_key ?k (filter (\<lambda>f. 0 < scoreItem ?t f) items)"
  have out: "fuzzySearch q items = take 50 ?S" by (rule fuzzySearch_eq)
  from j have j50: "j < 50" and jS: "j < length ?S" unfolding out by simp_all
  then have outj: "fuzzySearch q items ! j = ?S ! j" unfolding out by simp
  have "0 < scoreItem ?t e" using scoreItem_exact [OF ex] by simp
  with e have "e \<in> set ?S" by simp
  then obtain i where i: "i < length ?S" and Si: "?S ! i = e"
    unfolding in_set_conv_nth by blast
  have srt: "sorted (map ?k ?S)" by (rule sorted_sort_key)
  have "i < j"
  proof (rule ccontr)
    assume "\<not> i < j"
    then have "j \<le> i" by simp
    with srt i have "map ?k ?S ! j \<le> map ?k ?S ! i"
      by (simp add: sorted_iff_nth_mono del: sorted_sort_key)
    with i jS Si have "scoreItem ?t e \<le> scoreItem ?t (?S ! j)" by simp
    moreover have "scoreItem ?t (?S ! j) \<le> 870 + 15 * int (length ?t)"
      using nex outj by (intro scoreItem_non_exact) simp
    moreover have "1650 + 15 * int (length ?t) \<le> scoreItem ?t e"
      by (rule scoreItem_exact [OF ex])
    ultimately show False by simp
  qed
  moreover from \<open>i < j\<close> j50 i have "fuzzySearch q items ! i = e"
    unfolding out using Si by simp
  ultimately show ?thesis by blast
qed

theorem fuzzySearch_exact_first_witness:
  "entry ''README'' File ''/proj/README''
     \<in> set [entry ''readme-old.md'' File ''/proj/readme-old.md'', entry ''README'' File ''/proj/README'']
   \<and> toLowerCase (name (entry ''README'' File ''/proj/README'')) = toLowerCase ''readme''
   \<and> 1 < length (fuzzySearch ''readme''
         [entry ''readme-old.md'' File ''/proj/readme-old.md'', entry ''README'' File ''/proj/README''])
   \<and> toLowerCase (name (fuzzySearch ''readme''
         [entry ''readme-old.md'' File ''/proj/readme-old.md'', entry ''README'' File ''/proj/README''] ! 1))
       \<noteq> toLowerCase ''readme''
   \<and> fuzzySearch ''readme''
         [entry ''readme-old.md'' File ''/proj/readme-old.md'', entry ''README'' File ''/proj/README''] ! 0
       = entry ''README'' File ''/proj/README''"
proof -
  let ?e = "entry ''README'' File ''/proj/README''"
  let ?items = "[entry ''readme-old.md'' File ''/proj/readme-old.md'', ?e]"
  have h1: "?e \<in> set ?items" by simp
  have h2: "toLowerCase (name ?e) = toLowerCase ''readme''" by code_simp
  have h3: "1 < length (fuzzySearch ''readme'' ?items)" by code_simp
  have h4: "toLowerCase (name (fuzzySearch ''readme'' ?items ! 1)) \<noteq> toLowerCase ''readme''"
    by code_simp
  from fuzzySearch_exact_first [OF h1 h2 h3 h4]
  have "fuzzySearch ''readme'' ?items ! 0 = ?e" by simp
  with h1 h2 h3 h4 show ?thesis by blast
qed

section \<open>The quick-open scenario\<close>


section \<open>The traversal\<close>

lemma crawl_loop_file:
  "type f = File \<Longrightarrow>
     crawl_loop ls pth depth (f # fs) (collected, tr)
       = crawl_loop ls pth depth fs (collected @ [f\<lparr>path := Some (filePath pth f)\<rparr>], tr)"
  by simp

lemma crawl_loop_skip:
  "type f = Folder \<Longrightarrow> ignoredName (name f) \<Longrightarrow>
     crawl_loop ls pth depth (f # fs) (collected, tr) = crawl_loop ls pth depth fs (collected, tr)"
  by (auto simp: ignoredName_def)

lemma crawl_loop_descend:
  "type f = Folder \<Longrightarrow> \<not> ignoredName (name f) \<Longrightarrow>
     crawl_loop ls pth depth (f # fs) (collected, tr)
       = crawl_loop ls pth depth fs
           (collected @ fst (crawl ls (filePath pth f) (depth + 1)),
            tr @ Descend f (filePath pth f) (depth + 1) # snd (crawl ls (filePath pth f) (depth + 1)))"
  by (simp add: ignoredName_def Let_def split: prod.split)

lemma descend_cond:
  "(type f = Folder \<and> \<not> startsWith (name f) ''.'' \<and> name f \<noteq> ''node_modules''
      \<and> name f \<noteq> ''build'' \<and> name f \<noteq> ''dist'') = (type f = Folder \<and> \<not> ignoredName (name f))"
  by (auto simp: ignoredName_def)

lemma crawl_permitted_aux:
  "(\<forall>e \<in> set (snd (crawl ls pth depth)). permitted e)"
  "(\<forall>e \<in> set (snd acc). permitted e) \<longrightarrow>
     (\<forall>e \<in> set (snd (crawl_loop ls pth depth fs acc)). permitted e)"
proof (induction ls pth depth and ls pth depth fs acc rule: crawl_crawl_loop.induct)
  case (1 onListFiles pth depth)
  show ?case
  proof (cases "6 < depth")
    case True
    then show ?thesis by (simp add: crawl.simps)
  next
    case False
    show ?thesis
    proof (cases "onListFiles pth")
      case None
      with False show ?thesis by (simp add: crawl.simps permitted_def)
    next
      case (Some list)
      with False "1" [of list] show ?thesis by (simp add: crawl.simps permitted_def)
    qed
  qed
next
  case (2 onListFiles pth depth collected tr)
  show ?case by simp
next
  case (3 onListFiles pth depth f fs collected tr)
  note IH = "3.IH" [unfolded descend_cond]
  show ?case
  proof (cases "type f")
    case File
    from IH(1) [OF refl File] show ?thesis by (simp only: crawl_loop_file [OF File]) simp
  next
    case Folder
    then have nf: "type f \<noteq> File" by simp
    show ?thesis
    proof (cases "ignoredName (name f)")
      case True
      then have "\<not> (type f = Folder \<and> \<not> ignoredName (name f))" by simp
      from IH(4) [OF refl nf this] show ?thesis
        by (simp only: crawl_loop_skip [OF Folder True])
    next
      case False
      let ?fp = "filePath pth f"
      from Folder False have d: "permitted (Descend f ?fp (depth + 1))"
        by (simp add: permitted_def)
      from Folder False have c: "type f = Folder \<and> \<not> ignoredName (name f)" by simp
      from IH(2) [OF refl nf c]
      have sub: "\<forall>e \<in> set (snd (crawl onListFiles ?fp (depth + 1))). permitted e" .
      have eq: "crawl_loop onListFiles pth depth (f # fs) (collected, tr)
          = crawl_loop onListFiles pth depth fs
              (collected @ fst (crawl onListFiles ?fp (depth + 1)),
               tr @ Descend f ?fp (depth + 1) # snd (crawl onListFiles ?fp (depth + 1)))"
        by (rule crawl_loop_descend [OF Folder False])
      show ?thesis
        unfolding eq
      proof (intro impI)
        assume "\<forall>e \<in> set (snd (collected, tr)). permitted e"
        with d sub have "\<forall>e \<in> set (snd (collected @ fst (crawl onListFiles ?fp (depth + 1)),
               tr @ Descend f ?fp (depth + 1) # snd (crawl onListFiles ?fp (depth + 1)))). permitted e"
          by auto
        with IH(3) [OF refl nf c prod.collapse]
        show "\<forall>e \<in> set (snd (crawl_loop onListFiles pth depth fs
              (collected @ fst (crawl onListFiles ?fp (depth + 1)),
               tr @ Descend f ?fp (depth + 1) # snd (crawl onListFiles ?fp (depth + 1))))). permitted e"
          by blast
      qed
    qed
  qed
qed

lemma crawl_reaches_aux:
  "reaches ls root pth depth \<longrightarrow>
     (\<forall>p d. Listing p d \<in> set (snd (crawl ls pth depth)) \<longrightarrow> reaches ls root p d)"
  "reaches ls root pth depth \<and> (\<exists>list. ls pth = Some list \<and> set fs \<subseteq> set list)
     \<and> (\<forall>p d. Listing p d \<in> set (snd acc) \<longrightarrow> reaches ls root p d) \<longrightarrow>
     (\<forall>p d. Listing p d \<in> set (snd (crawl_loop ls pth depth fs acc)) \<longrightarrow> reaches ls root p d)"
proof (induction ls pth depth and ls pth depth fs acc rule: crawl_crawl_loop.induct)
  case (1 onListFiles pth depth)
  show ?case
  proof (cases "6 < depth")
    case True
    then show ?thesis by (simp add: crawl.simps)
  next
    case False
    show ?thesis
    proof (cases "onListFiles pth")
      case None
      with False show ?thesis by (simp add: crawl.simps)
    next
      case (Some list)
      with False "1" [of list] show ?thesis by (auto simp: crawl.simps)
    qed
  qed
next
  case (2 onListFiles pth depth collected tr)
  show ?case by simp
next
  case (3 onListFiles pth depth f fs collected tr)
  note IH = "3.IH" [unfolded descend_cond]
  show ?case
  proof (intro impI, elim conjE exE)
    fix list
    assume r: "reaches onListFiles root pth depth"
      and l: "onListFiles pth = Some list" and sub: "set (f # fs) \<subseteq> set list"
      and tr: "\<forall>p d. Listing p d \<in> set (snd (collected, tr)) \<longrightarrow> reaches onListFiles root p d"
    from l sub have ex: "\<exists>list. onListFiles pth = Some list \<and> set fs \<subseteq> set list" by auto
    show "\<forall>p d. Listing p d \<in> set (snd (crawl_loop onListFiles pth depth (f # fs) (collected, tr)))
             \<longrightarrow> reaches onListFiles root p d"
    proof (cases "type f")
      case File
      from IH(1) [OF refl File] r ex tr show ?thesis
        unfolding crawl_loop_file [OF File] by simp
    next
      case Folder
      then have nf: "type f \<noteq> File" by simp
      show ?thesis
      proof (cases "ignoredName (name f)")
        case True
        then have "\<not> (type f = Folder \<and> \<not> ignoredName (name f))" by simp
        from IH(4) [OF refl nf this] r ex tr show ?thesis
          unfolding crawl_loop_skip [OF Folder True] by simp
      next
        case False
        let ?fp = "filePath pth f"
        let ?c = "crawl onListFiles ?fp (depth + 1)"
        from Folder False have c: "type f = Folder \<and> \<not> ignoredName (name f)" by simp
        from sub have "f \<in> set list" by simp
        from reaches_step [OF r l this Folder False]
        have r': "reaches onListFiles root ?fp (depth + 1)" by simp
        with IH(2) [OF refl nf c]
        have inner: "\<forall>p d. Listing p d \<in> set (snd ?c) \<longrightarrow> reaches onListFiles root p d"
          by blast
        with tr have "\<forall>p d. Listing p d \<in> set (snd (collected @ fst ?c,
                 tr @ Descend f ?fp (depth + 1) # snd ?c)) \<longrightarrow> reaches onListFiles root p d"
          by auto
        with IH(3) [OF refl nf c prod.collapse] r ex show ?thesis
          unfolding crawl_loop_descend [OF Folder False] by blast
      qed
    qed
  qed
qed

lemma crawl_reaches:
  "Listing p d \<in> set (snd (crawl ls root 0)) \<Longrightarrow> reaches ls root p d"
  using crawl_reaches_aux(1) [of ls root root 0] reaches_root [of ls root] by blast

text \<open>
  C6. In an indexing pass every listing call is made for a path at most 6 levels below
  the root, reached from the root through folder entries none of which has an ignored
  name; and every descent of the pass is into a folder entry whose name neither starts
  with a dot nor is \<open>node_modules\<close>, \<open>build\<close> or \<open>dist\<close>.
\<close>

theorem crawl_bounded:
  "e \<in> set (snd (crawl onListFiles root 0)) \<Longrightarrow>
     (case e of Listing p d \<Rightarrow> d \<le> 6 \<and> reaches onListFiles root p d
      | Descend f p d \<Rightarrow> type f = Folder \<and> \<not> ignoredName (name f))"
  using crawl_permitted_aux(1) [of onListFiles root 0] crawl_reaches [of _ _ onListFiles root]
  by (cases e) (auto simp: permitted_def)

theorem crawl_bounded_witness:
  "Listing ''/r/a/a/a/a/a/a'' 6 \<in> set (snd (crawl cyclic_ls ''/r'' 0))
   \<and> (6::nat) \<le> 6 \<and> reaches cyclic_ls ''/r'' ''/r/a/a/a/a/a/a'' 6
   \<and> listed (snd (crawl cyclic_ls ''/r'' 0))
       = [''/r'', ''/r/a'', ''/r/a/a'', ''/r/a/a/a'', ''/r/a/a/a/a'', ''/r/a/a/a/a/a'',
          ''/r/a/a/a/a/a/a'']"
proof -
  have m: "Listing ''/r/a/a/a/a/a/a'' 6 \<in> set (snd (crawl cyclic_ls ''/r'' 0))"
    by code_simp
  have l: "listed (snd (crawl cyclic_ls ''/r'' 0))
       = [''/r'', ''/r/a'', ''/r/a/a'', ''/r/a/a/a'', ''/r/a/a/a/a'', ''/r/a/a/a/a/a'',
          ''/r/a/a/a/a/a/a'']"
    by code_simp
  from crawl_bounded [OF m] m l show ?thesis by simp
qed

lemma crawl_loop_fst:
  "fst (crawl_loop ls pth depth fs (collected, tr))
     = collected @ concat (map (contribution ls pth depth) fs)"
proof (induction fs arbitrary: collected tr)
  case Nil
  show ?case by simp
next
  case (Cons f fs)
  show ?case
  proof (cases "type f")
    case File
    then have "contribution ls pth depth f = [f\<lparr>path := Some (filePath pth f)\<rparr>]"
      by (simp add: contribution_def)
    then show ?thesis
      unfolding crawl_loop_file [OF File] Cons.IH by simp
  next
    case Folder
    show ?thesis
    proof (cases "ignoredName (name f)")
      case True
      with Folder have "contribution ls pth depth f = []"
        by (simp add: contribution_def)
      then show ?thesis
        unfolding crawl_loop_skip [OF Folder True] Cons.IH by simp
    next
      case False
      with Folder have "contribution ls pth depth f = fst (crawl ls (filePath pth f) (depth + 1))"
        by (simp add: contribution_def)
      then show ?thesis
        unfolding crawl_loop_descend [OF Folder False] Cons.IH by simp
    qed
  qed
qed

lemma crawl_fst:
  "fst (crawl ls pth depth) =
     (if 6 < depth then []
      else case ls pth of None \<Rightarrow> [] | Some list \<Rightarrow> concat (map (contribution ls pth depth) list))"
  by (simp add: crawl.simps crawl_loop_fst split: option.split)

lemma crawl_failure_as_empty:
  assumes "ls p = None"
  shows "fst (crawl ls pth depth) = fst (crawl (ls(p \<mapsto> [])) pth depth)"
proof (induction "7 - depth" arbitrary: depth pth)
  case 0
  then have "6 < depth" by simp
  then show ?case by (simp add: crawl_fst)
next
  case (Suc n)
  then have d: "\<not> 6 < depth" and n: "n = 7 - (depth + 1)" by simp_all
  have c: "contribution ls q depth = contribution (ls(p \<mapsto> [])) q depth" for q
    unfolding contribution_def using Suc.hyps(1) [OF n] by (intro ext) simp
  show ?case
  proof (cases "pth = p")
    case True
    with assms d show ?thesis by (simp add: crawl_fst)
  next
    case False
    with d show ?thesis by (simp add: crawl_fst c split: option.split)
  qed
qed

text \<open>
  C7. If the listing call for a directory \<open>p\<close> fails, the traversal of \<open>p\<close> yields no
  entries, and the indexing pass from any root returns exactly what it would return if
  \<open>p\<close> were an empty directory: no listing failure aborts the pass. The entries
  returned for a directory that could be listed are those its entries contribute, one
  after the other: each file, and for each folder entered all that its traversal returns,
  whatever happened in the folders beside it.
\<close>

theorem crawl_failure_isolated:
  assumes "onListFiles p = None"
  shows "fst (crawl onListFiles p depth) = []
       \<and> fst (crawl onListFiles root depth0) = fst (crawl (onListFiles(p \<mapsto> [])) root depth0)
       \<and> (depth0 \<le> 6 \<and> onListFiles root = Some list \<longrightarrow>
            fst (crawl onListFiles root depth0)
              = concat (map (contribution onListFiles root depth0) list))"
  using assms crawl_failure_as_empty [of onListFiles p root depth0] by (simp add: crawl_fst)

theorem crawl_failure_isolated_witness:
  "locked_ls ''/proj/locked'' = None
   \<and> fst (crawl locked_ls ''/proj/locked'' 1) = []
   \<and> fst (crawl locked_ls ''/proj'' 0) = fst (crawl (locked_ls(''/proj/locked'' \<mapsto> [])) ''/proj'' 0)
   \<and> fst (crawl locked_ls ''/proj'' 0)
       = concat (map (contribution locked_ls ''/proj'' 0)
           [entry ''docs'' Folder ''/proj/docs'', entry ''locked'' Folder ''/proj/locked'',
            entry ''src'' Folder ''/proj/src''])
   \<and> fst (crawl locked_ls ''/proj'' 0)
       = [entry ''guide.md'' File ''/proj/docs/guide.md'', entry ''main.go'' File ''/proj/src/main.go'']"
proof -
  have h: "locked_ls ''/proj/locked'' = None" by code_simp
  have l: "locked_ls ''/proj''
       = Some [entry ''docs'' Folder ''/proj/docs'', entry ''locked'' Folder ''/proj/locked'',
               entry ''src'' Folder ''/proj/src'']"
    by (simp add: locked_ls_def)
  have r: "fst (crawl locked_ls ''/proj'' 0)
       = [entry ''guide.md'' File ''/proj/docs/guide.md'', entry ''main.go'' File ''/proj/src/main.go'']"
    by code_simp
  have d: "(0::nat) \<le> 6" by simp
  from crawl_failure_isolated [of locked_ls "''/proj/locked''" 1 "''/proj''" 0
      "[entry ''docs'' Folder ''/proj/docs'', entry ''locked'' Folder ''/proj/locked'',
        entry ''src'' Folder ''/proj/src'']", OF h] h l r d
  show ?thesis by blast
qed

section \<open>The selection cursor\<close>

lemma filteredFiles_handleKey [simp]: "filteredFiles (handleKey k st) = filteredFiles st"
  by (cases k) (simp_all add: handleKey_def filteredFiles_def Let_def)

text \<open>
  C8, as the code has it. When the displayed collection is not empty and the cursor lies
  within \<open>[0, length - 1]\<close> before the key event, it lies within \<open>[0, length - 1]\<close> of
  the displayed collection after an Arrow-down or an Arrow-up.
\<close>

theorem handleKey_in_range:
  assumes "filteredFiles st \<noteq> []" and "cursorInRange st"
  shows "cursorInRange (handleKey k st)"
  using assms by (cases k) (auto simp: cursorInRange_def handleKey_def Let_def filteredFiles_def)

theorem handleKey_in_range_witness:
  "filteredFiles (navigateTo proj_ls ''/proj'' initialState) \<noteq> []
   \<and> cursorInRange (navigateTo proj_ls ''/proj'' initialState)
   \<and> cursorInRange (handleKey ArrowDown (navigateTo proj_ls ''/proj'' initialState))
   \<and> selectedIndex (handleKey ArrowDown (navigateTo proj_ls ''/proj'' initialState)) = 1
   \<and> cursorInRange (handleKey ArrowUp (navigateTo proj_ls ''/proj'' initialState))"
proof -
  let ?st = "navigateTo proj_ls ''/proj'' initialState"
  have h1: "filteredFiles ?st \<noteq> []" by code_simp
  have h2: "cursorInRange ?st" by code_simp
  have v: "selectedIndex (handleKey ArrowDown ?st) = 1" by code_simp
  from handleKey_in_range [OF h1 h2, of ArrowDown] handleKey_in_range [OF h1 h2, of ArrowUp] h1 h2 v
  show ?thesis by blast
qed

text \<open>
  C8 as stated fails. With nothing displayed, Arrow-down moves the cursor from 0 to
  \<open>-1\<close>. With one entry displayed and the cursor left at 2 by an earlier, longer
  collection, Arrow-up moves it to 1, beyond the last index 0.
\<close>

theorem handleKey_counterexample:
  "filteredFiles initialState = [] \<and> selectedIndex initialState = 0
   \<and> selectedIndex (handleKey ArrowDown initialState) = - 1
   \<and> \<not> cursorInRange (handleKey ArrowDown initialState)
   \<and> length (filteredFiles staleState) = 1 \<and> selectedIndex staleState = 2
   \<and> selectedIndex (handleKey ArrowUp staleState) = 1
   \<and> \<not> cursorInRange (handleKey ArrowUp staleState)"
  by code_simp

section \<open>The listing cache\<close>




section \<open>The displayed results without an index\<close>

text \<open>
  C10. When the query is not empty after trimming and the index is empty, the displayed
  collection is the listing of the current directory filtered by whether the lowercased
  name contains the lowercased query: no entry is cut off and folders are kept, so more
  than 50 entries can be displayed.
\<close>

theorem filteredFiles_unindexed:
  assumes "trim (query st) \<noteq> []" and "allFiles st = []"
  shows "filteredFiles st
       = filter (\<lambda>f. sublist (toLowerCase (query st)) (toLowerCase (name f))) (files st)"
  using assms by (simp add: filteredFiles_def includesStr_sublist)

theorem filteredFiles_unindexed_witness:
  "trim (query manyState) \<noteq> [] \<and> allFiles manyState = []
   \<and> filteredFiles manyState
       = filter (\<lambda>f. sublist (toLowerCase (query manyState)) (toLowerCase (name f))) (files manyState)
   \<and> filteredFiles manyState = replicate 51 (entry ''src'' Folder ''/proj/src'')
   \<and> length (filteredFiles manyState) = 51"
proof -
  have h1: "trim (query manyState) \<noteq> []" by code_simp
  have h2: "allFiles manyState = []" by code_simp
  have v: "filteredFiles manyState = replicate 51 (entry ''src'' Folder ''/proj/src'')" by code_simp
  then have l: "length (filteredFiles manyState) = 51" by simp
  from filteredFiles_unindexed [OF h1 h2] h1 h2 v l show ?thesis by blast
qed

end
